theory Spec2Isabelle
  imports Main "HOL-Library.AList"
begin

section \<open>Edge index\<close>

text \<open>
  A node identifier is a string.  A Python \<open>dict\<close> is an association list read with
  \<open>map_of\<close> and written with \<open>AList.update\<close>.  A Python \<open>set\<close> of parents is a
  duplicate-free list: the order of the list stands for the order in which a \<open>for\<close> loop
  enumerates the set, which Python leaves open, so results about the depth resolver are stated
  for every such order.
\<close>

type_synonym parent_map = "(string \<times> string list) list"

text \<open>\<open>s.add(x)\<close> on a set.\<close>

definition set_add :: "'a \<Rightarrow> 'a list \<Rightarrow> 'a list" where
  "set_add x xs = (if x \<in> set xs then xs else xs @ [x])"

text \<open>\<open>d[k]\<close> on a \<open>defaultdict\<close> whose factory yields the empty collection.\<close>

definition getitem_default :: "parent_map \<Rightarrow> string \<Rightarrow> string list" where
  "getitem_default d k = (case map_of d k of None \<Rightarrow> [] | Some ps \<Rightarrow> ps)"

text \<open>
  The test \<open>k not in d or not d[k]\<close> of both resolvers.  The \<open>or\<close> short-circuits, so
  the \<open>defaultdict\<close> is never asked for an absent key and never grows.
\<close>

definition no_parents :: "parent_map \<Rightarrow> string \<Rightarrow> bool" where
  "no_parents d k = (map_of d k = None \<or> getitem_default d k = [])"

text \<open>
  \<open>build_parent_map\<close> of \<open>add_skill_levels.py\<close>: the rows of the hierarchy file are the
  pairs \<open>(CHILDID, PARENTID)\<close>; each row runs \<open>parent_map[child_id].add(parent_id)\<close>.
\<close>

fun build_parent_map_rows :: "(string \<times> string) list \<Rightarrow> parent_map \<Rightarrow> parent_map" where
  "build_parent_map_rows [] parent_map = parent_map"
| "build_parent_map_rows ((child_id, parent_id) # rows) parent_map =
     build_parent_map_rows rows
       (AList.update child_id (set_add parent_id (getitem_default parent_map child_id)) parent_map)"

definition build_parent_map :: "(string \<times> string) list \<Rightarrow> parent_map" where
  "build_parent_map rows = build_parent_map_rows rows []"

text \<open>
  \<open>load_hierarchy\<close> of \<open>map_skill_hierarchy_paths.py\<close>: the same loop over a
  \<open>defaultdict(list)\<close>, each row running \<open>child_to_parents[child_id].append(parent_id)\<close>.
\<close>

fun load_hierarchy_rows :: "(string \<times> string) list \<Rightarrow> parent_map \<Rightarrow> parent_map" where
  "load_hierarchy_rows [] child_to_parents = child_to_parents"
| "load_hierarchy_rows ((child_id, parent_id) # rows) child_to_parents =
     load_hierarchy_rows rows
       (AList.update child_id (getitem_default child_to_parents child_id @ [parent_id])
          child_to_parents)"

definition load_hierarchy :: "(string \<times> string) list \<Rightarrow> parent_map" where
  "load_hierarchy rows = load_hierarchy_rows rows []"

section \<open>Depth resolver\<close>

text \<open>
  \<open>calculate_depth\<close> mutates the memo table and the recursion-path set it is handed, and
  prints a warning when it meets a cycle.  The three are the fields of the state that every
  call takes and returns.  \<open>visited.remove\<close> raises \<open>KeyError\<close> on an absent element.
  The recursion is bounded by a fuel argument; \<open>None\<close> means the fuel ran out.  The
  interpreter's own limit on the depth of recursion is not part of the model.
\<close>

datatype error = KeyError string

record depth_state =
  memo :: "string \<rightharpoonup> int"
  visited :: "string set"
  printed :: "string list"

fun calculate_depth ::
    "nat \<Rightarrow> parent_map \<Rightarrow> string \<Rightarrow> depth_state \<Rightarrow> (error + int \<times> depth_state) option"
  and parents_loop ::
    "nat \<Rightarrow> parent_map \<Rightarrow> string list \<Rightarrow> int \<Rightarrow> depth_state \<Rightarrow> (error + int \<times> depth_state) option"
where
  "calculate_depth 0 parent_map skill_id st = None"
| "calculate_depth (Suc fuel) parent_map skill_id st =
     (case memo st skill_id of
        Some d \<Rightarrow> Some (Inr (d, st))
      | None \<Rightarrow>
          if skill_id \<in> visited st
          then Some (Inr (1, st\<lparr>printed := printed st @ [''Warning: Cycle detected at '' @ skill_id]\<rparr>))
          else if no_parents parent_map skill_id
          then Some (Inr (1, st\<lparr>memo := (memo st)(skill_id \<mapsto> 1)\<rparr>))
          else
            (case parents_loop fuel parent_map (getitem_default parent_map skill_id) 0
                    (st\<lparr>visited := insert skill_id (visited st)\<rparr>) of
               None \<Rightarrow> None
             | Some (Inl e) \<Rightarrow> Some (Inl e)
             | Some (Inr (max_parent_depth, st')) \<Rightarrow>
                 if skill_id \<notin> visited st' then Some (Inl (KeyError skill_id))
                 else Some (Inr (max_parent_depth + 1,
                        st'\<lparr>visited := visited st' - {skill_id},
                            memo := (memo st')(skill_id \<mapsto> max_parent_depth + 1)\<rparr>))))"
| "parents_loop fuel parent_map [] max_parent_depth st = Some (Inr (max_parent_depth, st))"
| "parents_loop fuel parent_map (parent_id # rest) max_parent_depth st =
     (case calculate_depth fuel parent_map parent_id st of
        None \<Rightarrow> None
      | Some (Inl e) \<Rightarrow> Some (Inl e)
      | Some (Inr (parent_depth, st')) \<Rightarrow>
          parents_loop fuel parent_map rest (max max_parent_depth parent_depth) st')"

text \<open>
  The call of \<open>add_level_column\<close>:
  \<open>calculate_depth(skill_id, parent_map, depth_memo, set())\<close>.  The fuel exceeds the number
  of keys of the index, which bounds the depth of the recursion.
\<close>

definition depth_query ::
    "parent_map \<Rightarrow> string \<Rightarrow> (string \<rightharpoonup> int) \<Rightarrow> (error + int \<times> depth_state) option" where
  "depth_query parent_map skill_id depth_memo =
     calculate_depth (Suc (length parent_map)) parent_map skill_id
       \<lparr>memo = depth_memo, visited = {}, printed = []\<rparr>"

section \<open>Path enumerator\<close>

text \<open>
  \<open>get_all_paths\<close> of \<open>map_skill_hierarchy_paths.py\<close>.  The two optional arguments
  default to \<open>None\<close>.  The function returns the list of paths together with the final
  content of the set object it worked on, which it changes with \<open>visited.add\<close>
  (the parameter is written \<open>visited_arg\<close>, the name \<open>visited\<close> being a field of the
  resolver's state).  Each
  recursive call is handed \<open>visited.copy()\<close>, a fresh object, so the loop over the parents
  drops what the callee did to its copy and goes on with its own set.
\<close>

definition or_default :: "'a option \<Rightarrow> 'a \<Rightarrow> 'a" where
  "or_default arg d = (case arg of None \<Rightarrow> d | Some v \<Rightarrow> v)"

function get_all_paths ::
    "string \<Rightarrow> parent_map \<Rightarrow> string list option \<Rightarrow> string set option
       \<Rightarrow> string list list \<times> string set"
  and extend_all_paths ::
    "string list \<Rightarrow> parent_map \<Rightarrow> string list \<Rightarrow> string set \<Rightarrow> string list list
       \<Rightarrow> string list list"
where
  "get_all_paths skill_id child_to_parents current_path visited_arg =
     (if skill_id \<in> or_default visited_arg {}
      then ([or_default current_path [skill_id]], or_default visited_arg {})
      else if no_parents child_to_parents skill_id
      then ([or_default current_path [skill_id]], or_default visited_arg {})
      else (extend_all_paths (getitem_default child_to_parents skill_id) child_to_parents
              (or_default current_path [skill_id]) (insert skill_id (or_default visited_arg {})) [],
            insert skill_id (or_default visited_arg {})))"
| "extend_all_paths [] child_to_parents current_path visited_set all_paths = all_paths"
| "extend_all_paths (parent_id # rest) child_to_parents current_path visited_set all_paths =
     extend_all_paths rest child_to_parents current_path visited_set
       (all_paths @
        fst (get_all_paths parent_id child_to_parents (Some (current_path @ [parent_id]))
               (Some visited_set)))"
  by pat_completeness auto

termination
proof (relation "measures
    [\<lambda>x. case x of
        Inl (n, c, p, v) \<Rightarrow> 2 * card (fst ` set c - or_default v {})
      | Inr (ps, c, p, v, a) \<Rightarrow> 2 * card (fst ` set c - v) + 1,
     \<lambda>x. case x of Inl t \<Rightarrow> 0 | Inr (ps, c, p, v, a) \<Rightarrow> length ps]", goal_cases)
  case 1
  show ?case by simp
next
  case (2 skill_id child_to_parents current_path visited_arg)
  from 2 have "skill_id \<in> fst ` set child_to_parents"
    by (auto simp: no_parents_def map_of_eq_None_iff)
  with 2 have "fst ` set child_to_parents - insert skill_id (or_default visited_arg {})
      \<subset> fst ` set child_to_parents - or_default visited_arg {}"
    by auto
  then have "card (fst ` set child_to_parents - insert skill_id (or_default visited_arg {}))
      < card (fst ` set child_to_parents - or_default visited_arg {})"
    by (intro psubset_card_mono) auto
  then show ?case by simp
next
  case 3
  then show ?case by (simp add: or_default_def)
next
  case 4
  then show ?case by simp
qed

text \<open>The call of \<open>map_skill_hierarchies\<close>: \<open>get_all_paths(skill_id, child_to_parents)\<close>.\<close>

definition paths :: "parent_map \<Rightarrow> string \<Rightarrow> string list list" where
  "paths child_to_parents skill_id = fst (get_all_paths skill_id child_to_parents None None)"

section \<open>Labels and the path string\<close>

text \<open>\<open>d.get(k, default)\<close> on a dictionary.\<close>

definition dict_get :: "('k \<rightharpoonup> 'v) \<Rightarrow> 'k \<Rightarrow> 'v \<Rightarrow> 'v" where
  "dict_get d k dflt = (case d k of None \<Rightarrow> dflt | Some v \<Rightarrow> v)"

text \<open>\<open>sep.join(xs)\<close> on a list of strings.\<close>

fun join :: "string \<Rightarrow> string list \<Rightarrow> string" where
  "join sep [] = []"
| "join sep [x] = x"
| "join sep (x # y # ys) = x @ sep @ join sep (y # ys)"

text \<open>
  The two lines of \<open>map_skill_hierarchies\<close> that build the \<open>hierarchy_path\<close> column:
  \<open>path_labels = [labels.get(node_id, node_id) for node_id in path]\<close> and
  \<open>" ; ".join(path_labels)\<close>.
\<close>

definition path_labels :: "(string \<rightharpoonup> string) \<Rightarrow> string list \<Rightarrow> string list" where
  "path_labels labels path = map (\<lambda>node_id. dict_get labels node_id node_id) path"

definition hierarchy_path :: "(string \<rightharpoonup> string) \<Rightarrow> string list \<Rightarrow> string" where
  "hierarchy_path labels path = join '' ; '' (path_labels labels path)"

section \<open>Notions used to state the properties\<close>

text \<open>The child-to-parent edges an index records.\<close>

definition edge_rel :: "parent_map \<Rightarrow> (string \<times> string) set" where
  "edge_rel d = {(c, p). p \<in> set (getitem_default d c)}"

text \<open>The depth a query returns against an empty memo table, without the final state.\<close>

definition depth_of :: "parent_map \<Rightarrow> string \<Rightarrow> (error + int) option" where
  "depth_of parent_map skill_id =
     map_option (map_sum id fst) (depth_query parent_map skill_id Map.empty)"

text \<open>The same as a number, for use where the query is known to return one.\<close>

definition depth_value :: "parent_map \<Rightarrow> string \<Rightarrow> int" where
  "depth_value parent_map skill_id =
     (case depth_of parent_map skill_id of Some (Inr d) \<Rightarrow> d | _ \<Rightarrow> 0)"

text \<open>A memo table whose every entry is the depth of its key.\<close>

definition sound_memo :: "parent_map \<Rightarrow> (string \<rightharpoonup> int) \<Rightarrow> bool" where
  "sound_memo parent_map m = (\<forall>k d. m k = Some d \<longrightarrow> d = depth_value parent_map k)"

text \<open>
  A chain of nodes in which every node is followed by one of its recorded parents.
\<close>

fun upward_chain :: "parent_map \<Rightarrow> string list \<Rightarrow> bool" where
  "upward_chain d [] = True"
| "upward_chain d [x] = True"
| "upward_chain d (x # y # ys) = (y \<in> set (getitem_default d x) \<and> upward_chain d (y # ys))"

text \<open>Two indexes that record the same set of parents for every node.\<close>

definition same_sets :: "parent_map \<Rightarrow> parent_map \<Rightarrow> bool" where
  "same_sets d e = (\<forall>k. set (getitem_default d k) = set (getitem_default e k))"

section \<open>Scenarios\<close>

text \<open>The edge streams of the scenarios, each pair a row \<open>(child, parent)\<close>.\<close>

definition chain_edges :: "(string \<times> string) list" where
  "chain_edges = [(''B'', ''A''), (''C'', ''B'')]"

definition diamond_edges :: "(string \<times> string) list" where
  "diamond_edges = [(''B'', ''A''), (''C'', ''A''), (''D'', ''B''), (''D'', ''C'')]"

definition cycle_edges :: "(string \<times> string) list" where
  "cycle_edges = [(''X'', ''Y''), (''Y'', ''X'')]"

text \<open>
  An index with a cycle between \<open>A\<close> and \<open>B\<close>, written down with the two orders in
  which a loop may enumerate the parents of \<open>W\<close>.
\<close>

definition order_a :: parent_map where
  "order_a = [(''W'', [''A'', ''B'']), (''A'', [''B'']), (''B'', [''A'', ''C'']), (''C'', [''D''])]"

definition order_b :: parent_map where
  "order_b = [(''W'', [''B'', ''A'']), (''A'', [''B'']), (''B'', [''A'', ''C'']), (''C'', [''D''])]"

text \<open>A node with one parent that leads back to it and one parent that is a root.\<close>

definition side_cycle_edges :: "(string \<times> string) list" where
  "side_cycle_edges = [(''N'', ''P''), (''N'', ''Q''), (''P'', ''N'')]"

section \<open>Properties of the edge index\<close>

text \<open>What the two builders record for a child, in terms of the rows read.\<close>

lemma getitem_default_update:
  "getitem_default (AList.update k v d) c = (if c = k then v else getitem_default d c)"
  by (simp add: getitem_default_def update_conv')

lemma getitem_default_Nil: "getitem_default [] c = []"
  by (simp add: getitem_default_def)

lemma set_set_add: "set (set_add x xs) = insert x (set xs)"
  by (auto simp: set_add_def)

lemma build_parent_map_rows_parents:
  "set (getitem_default (build_parent_map_rows rows d) c)
     = set (getitem_default d c) \<union> {p. (c, p) \<in> set rows}"
proof (induction rows arbitrary: d)
  case Nil
  then show ?case by simp
next
  case (Cons r rows)
  obtain child_id parent_id where r: "r = (child_id, parent_id)" by (cases r)
  show ?case
    unfolding r by (auto simp: Cons.IH getitem_default_update set_set_add)
qed

lemma build_parent_map_parents:
  "set (getitem_default (build_parent_map rows) c) = {p. (c, p) \<in> set rows}"
  by (simp add: build_parent_map_def build_parent_map_rows_parents getitem_default_Nil)

lemma load_hierarchy_rows_parents:
  "getitem_default (load_hierarchy_rows rows d) c
     = getitem_default d c @ map snd (filter (\<lambda>r. fst r = c) rows)"
proof (induction rows arbitrary: d)
  case Nil
  then show ?case by simp
next
  case (Cons r rows)
  obtain child_id parent_id where r: "r = (child_id, parent_id)" by (cases r)
  show ?case
    unfolding r by (simp add: Cons.IH getitem_default_update)
qed

lemma load_hierarchy_parents:
  "getitem_default (load_hierarchy rows) c = map snd (filter (\<lambda>r. fst r = c) rows)"
  by (simp add: load_hierarchy_def load_hierarchy_rows_parents getitem_default_Nil)

lemma build_parent_map_set_of_rows:
  "set rows = set rows' \<Longrightarrow> same_sets (build_parent_map rows) (build_parent_map rows')"
  by (simp add: same_sets_def build_parent_map_parents)

lemma load_hierarchy_distinct:
  assumes "distinct rows"
  shows "distinct (getitem_default (load_hierarchy rows) c)"
proof -
  have "inj_on snd (set (filter (\<lambda>r. fst r = c) rows))"
    by (auto simp: inj_on_def prod_eq_iff)
  with assms show ?thesis
    by (simp add: load_hierarchy_parents distinct_map)
qed

lemma load_hierarchy_set:
  "set (getitem_default (load_hierarchy rows) c) = {p. (c, p) \<in> set rows}"
  by (auto simp: load_hierarchy_parents intro: rev_image_eqI)

section \<open>Properties of the depth resolver\<close>

lemma card_unvisited_less:
  assumes "k \<in> fst ` set (al :: ('k \<times> 'v) list)" and "k \<notin> V"
  shows "card (fst ` set al - insert k V) < card (fst ` set al - V)"
proof -
  have "fst ` set al - insert k V \<subset> fst ` set al - V"
    using assms by auto
  then show ?thesis
    by (intro psubset_card_mono) auto
qed

text \<open>A call that returns within some fuel returns the same with more.\<close>

lemma fuel_mono:
  "calculate_depth f pm n st = Some r \<Longrightarrow> f \<le> f' \<Longrightarrow> calculate_depth f' pm n st = Some r"
  "parents_loop f pm ps acc st = Some r \<Longrightarrow> f \<le> f' \<Longrightarrow> parents_loop f' pm ps acc st = Some r"
proof (induction f pm n st and f pm ps acc st arbitrary: r f' and r f'
       rule: calculate_depth_parents_loop.induct)
  case (1 parent_map skill_id st)
  then show ?case by simp
next
  case (2 fuel parent_map skill_id st)
  from "2.prems" obtain g where f': "f' = Suc g" and g: "fuel \<le> g"
    by (cases f') auto
  show ?case
  proof (cases "memo st skill_id = None \<and> skill_id \<notin> visited st
      \<and> \<not> no_parents parent_map skill_id")
    case False
    with "2.prems"(1) show ?thesis unfolding f' by (auto split: option.splits if_splits)
  next
    case True
    let ?st = "st\<lparr>visited := insert skill_id (visited st)\<rparr>"
    let ?ps = "getitem_default parent_map skill_id"
    from True "2.prems"(1) obtain q where q: "parents_loop fuel parent_map ?ps 0 ?st = Some q"
      by (auto split: option.splits)
    have "parents_loop g parent_map ?ps 0 ?st = Some q"
      using "2.IH"[OF _ _ _ q g] True by auto
    with q True "2.prems"(1) show ?thesis unfolding f' by simp
  qed
next
  case (3 fuel parent_map max_parent_depth st)
  then show ?case by simp
next
  case (4 fuel parent_map parent_id rest max_parent_depth st)
  from "4.prems"(1) obtain q where q: "calculate_depth fuel parent_map parent_id st = Some q"
    by (auto split: option.splits)
  have q': "calculate_depth f' parent_map parent_id st = Some q"
    using "4.IH"(1)[OF q "4.prems"(2)] .
  show ?case
  proof (cases q)
    case (Inl e)
    with q "4.prems"(1) have "r = Inl e" by simp
    with q' Inl show ?thesis by simp
  next
    case (Inr b)
    obtain d st' where b: "b = (d, st')" by (cases b)
    from q Inr b "4.prems"(1) have "parents_loop fuel parent_map rest (max max_parent_depth d) st' = Some r"
      by simp
    from "4.IH"(2)[OF q Inr b[symmetric] this "4.prems"(2)] q' Inr b show ?thesis by simp
  qed
qed

text \<open>
  With more fuel than the index has keys every call returns a depth, raises nothing, and
  leaves the recursion-path set as it found it.
\<close>

lemma calc_returns:
  "card (fst ` set pm - visited st) < f \<Longrightarrow>
     \<exists>d st'. calculate_depth f pm n st = Some (Inr (d, st')) \<and> visited st' = visited st"
  "card (fst ` set pm - visited st) < f \<Longrightarrow>
     \<exists>d st'. parents_loop f pm ps acc st = Some (Inr (d, st')) \<and> visited st' = visited st"
proof (induction f pm n st and f pm ps acc st
       rule: calculate_depth_parents_loop.induct)
  case (1 parent_map skill_id st)
  then show ?case by simp
next
  case (2 fuel parent_map skill_id st)
  show ?case
  proof (cases "memo st skill_id = None \<and> skill_id \<notin> visited st
      \<and> \<not> no_parents parent_map skill_id")
    case False
    then show ?thesis by (auto split: option.splits)
  next
    case True
    let ?st = "st\<lparr>visited := insert skill_id (visited st)\<rparr>"
    let ?ps = "getitem_default parent_map skill_id"
    from True have "skill_id \<in> fst ` set parent_map"
      by (auto simp: no_parents_def map_of_eq_None_iff)
    with True have "card (fst ` set parent_map - insert skill_id (visited st))
        < card (fst ` set parent_map - visited st)"
      by (intro card_unvisited_less) auto
    with "2.prems" have "card (fst ` set parent_map - visited ?st) < fuel"
      by simp
    from "2.IH"[OF _ _ _ this] True obtain d st'
      where l: "parents_loop fuel parent_map ?ps 0 ?st = Some (Inr (d, st'))"
        and v: "visited st' = insert skill_id (visited st)"
      by auto
    from True l v show ?thesis by auto
  qed
next
  case (3 fuel parent_map max_parent_depth st)
  then show ?case by simp
next
  case (4 fuel parent_map parent_id rest max_parent_depth st)
  from "4.IH"(1)[OF "4.prems"] obtain d st'
    where c: "calculate_depth fuel parent_map parent_id st = Some (Inr (d, st'))"
      and v: "visited st' = visited st"
    by auto
  from "4.prems" v have "card (fst ` set parent_map - visited st') < fuel" by simp
  from "4.IH"(2)[OF c refl refl this] c v show ?case by auto
qed

subsection \<open>The two-node cycle\<close>

text \<open>
  C2: on the index with the two edges \<open>X \<rightarrow> Y\<close> and \<open>Y \<rightarrow> X\<close> every query
  returns.  Queried first, \<open>X\<close> gets depth 3 (and \<open>Y\<close> is memoized with 2) and one cycle
  warning is printed; when \<open>Y\<close> was queried first, \<open>Y\<close> gets 3 with one warning and the later
  query of \<open>X\<close> returns the memoized 2 and prints nothing.
\<close>

theorem cycle_scenario:
  "depth_query (build_parent_map cycle_edges) ''X'' Map.empty
     = Some (Inr (3, \<lparr>memo = [''Y'' \<mapsto> 2, ''X'' \<mapsto> 3], visited = {},
                      printed = [''Warning: Cycle detected at X'']\<rparr>))
   \<and> depth_query (build_parent_map cycle_edges) ''Y'' Map.empty
     = Some (Inr (3, \<lparr>memo = [''X'' \<mapsto> 2, ''Y'' \<mapsto> 3], visited = {},
                      printed = [''Warning: Cycle detected at Y'']\<rparr>))
   \<and> depth_query (build_parent_map cycle_edges) ''X'' [''X'' \<mapsto> 2, ''Y'' \<mapsto> 3]
     = Some (Inr (2, \<lparr>memo = [''X'' \<mapsto> 2, ''Y'' \<mapsto> 3], visited = {}, printed = []\<rparr>))"
  by (simp add: depth_query_def cycle_edges_def build_parent_map_def
        no_parents_def getitem_default_def set_add_def)

text \<open>The first query for \<open>X\<close> returns 3, which is neither 1 nor 2.\<close>

theorem cycle_scenario_counterexample:
  "depth_of (build_parent_map cycle_edges) ''X'' = Some (Inr 3)
   \<and> depth_of (build_parent_map cycle_edges) ''X'' \<notin> {Some (Inr 1), Some (Inr 2)}"
  by (simp add: depth_of_def depth_query_def cycle_edges_def build_parent_map_def
        no_parents_def getitem_default_def set_add_def)

subsection \<open>Acyclic indexes\<close>

text \<open>
  The loop over the parents returns the running maximum of their depths when each parent
  resolves to its depth.
\<close>

lemma parents_loop_sound:
  assumes IH: "\<And>p st. p \<in> set qs \<Longrightarrow> sound_memo pm (memo st) \<Longrightarrow>
            \<forall>v\<in>visited st. (v, p) \<in> (edge_rel pm)\<^sup>+ \<Longrightarrow>
            \<exists>f m'. calculate_depth f pm p st = Some (Inr (depth_value pm p, st\<lparr>memo := m'\<rparr>))
               \<and> sound_memo pm m'"
    and "sound_memo pm (memo st)"
    and "\<forall>p\<in>set qs. \<forall>v\<in>visited st. (v, p) \<in> (edge_rel pm)\<^sup>+"
  shows "\<exists>f m'. parents_loop f pm qs acc st
            = Some (Inr (fold max (map (depth_value pm) qs) acc, st\<lparr>memo := m'\<rparr>))
          \<and> sound_memo pm m'"
  using assms
proof (induction qs arbitrary: acc st)
  case Nil
  from Nil.prems(2) show ?case
    by (intro exI[of _ 0] exI[of _ "memo st"]) simp
next
  case (Cons q qs)
  from Cons.prems(1)[of q st] Cons.prems(2,3) obtain f1 m1
    where c: "calculate_depth f1 pm q st = Some (Inr (depth_value pm q, st\<lparr>memo := m1\<rparr>))"
      and s1: "sound_memo pm m1"
    by auto
  let ?st = "st\<lparr>memo := m1\<rparr>"
  have "\<exists>f m'. parents_loop f pm qs (max acc (depth_value pm q)) ?st
            = Some (Inr (fold max (map (depth_value pm) qs) (max acc (depth_value pm q)), ?st\<lparr>memo := m'\<rparr>))
          \<and> sound_memo pm m'"
    using Cons.prems s1 by (intro Cons.IH) auto
  then obtain f2 m2
    where l: "parents_loop f2 pm qs (max acc (depth_value pm q)) ?st
            = Some (Inr (fold max (map (depth_value pm) qs) (max acc (depth_value pm q)), st\<lparr>memo := m2\<rparr>))"
      and s2: "sound_memo pm m2"
    by auto
  have c': "calculate_depth (max f1 f2) pm q st = Some (Inr (depth_value pm q, ?st))"
    using fuel_mono(1)[OF c] by simp
  have l': "parents_loop (max f1 f2) pm qs (max acc (depth_value pm q)) ?st
            = Some (Inr (fold max (map (depth_value pm) qs) (max acc (depth_value pm q)), st\<lparr>memo := m2\<rparr>))"
    using fuel_mono(2)[OF l] by simp
  have "parents_loop (max f1 f2) pm (q # qs) acc st
      = Some (Inr (fold max (map (depth_value pm) (q # qs)) acc, st\<lparr>memo := m2\<rparr>))"
    using c' l' by (simp add: max.commute)
  with s2 show ?case by blast
qed

lemma finite_edge_rel: "finite (edge_rel pm)"
proof -
  have "edge_rel pm \<subseteq> fst ` set pm \<times> \<Union> (set ` snd ` set pm)"
  proof
    fix e assume "e \<in> edge_rel pm"
    then obtain c p where e: "e = (c, p)" and p: "p \<in> set (getitem_default pm c)"
      by (auto simp: edge_rel_def)
    from p obtain ps where "map_of pm c = Some ps" and "p \<in> set ps"
      by (cases "map_of pm c") (simp_all add: getitem_default_def)
    then have "(c, ps) \<in> set pm" and "p \<in> set ps"
      by (auto dest: map_of_SomeD)
    then show "e \<in> fst ` set pm \<times> \<Union> (set ` snd ` set pm)"
      unfolding e by force
  qed
  then show ?thesis
    by (rule finite_subset) auto
qed

lemma depth_query_returns:
  "\<exists>d st'. depth_query pm n m = Some (Inr (d, st'))"
proof -
  have "card (fst ` set pm) \<le> length pm"
    by (metis card_image_le card_length le_trans List.finite_set)
  then have "card (fst ` set pm - visited \<lparr>memo = m, visited = {}, printed = []\<rparr>) < Suc (length pm)"
    by simp
  from calc_returns(1)[OF this] show ?thesis
    unfolding depth_query_def by blast
qed

lemma depth_of_from_fuel:
  assumes "calculate_depth f pm n \<lparr>memo = Map.empty, visited = {}, printed = []\<rparr> = Some (Inr (d, st'))"
  shows "depth_of pm n = Some (Inr d)"
proof -
  obtain d0 s0 where q: "depth_query pm n Map.empty = Some (Inr (d0, s0))"
    using depth_query_returns by blast
  let ?F = "max f (Suc (length pm))"
  have "calculate_depth ?F pm n \<lparr>memo = Map.empty, visited = {}, printed = []\<rparr> = Some (Inr (d, st'))"
    using fuel_mono(1)[OF assms] by simp
  moreover have "calculate_depth ?F pm n \<lparr>memo = Map.empty, visited = {}, printed = []\<rparr> = Some (Inr (d0, s0))"
    using fuel_mono(1)[OF q[unfolded depth_query_def]] by simp
  ultimately have "d0 = d" by simp
  with q show ?thesis by (simp add: depth_of_def)
qed

lemma no_parents_iff: "no_parents d k \<longleftrightarrow> getitem_default d k = []"
  by (auto simp: no_parents_def getitem_default_def)

lemma calculate_depth_step:
  assumes acyc: "acyclic (edge_rel pm)"
    and IH: "\<And>p st. p \<in> set (getitem_default pm n) \<Longrightarrow> sound_memo pm (memo st) \<Longrightarrow>
            \<forall>v\<in>visited st. (v, p) \<in> (edge_rel pm)\<^sup>+ \<Longrightarrow>
            \<exists>f m'. calculate_depth f pm p st = Some (Inr (depth_value pm p, st\<lparr>memo := m'\<rparr>))
               \<and> sound_memo pm m'"
    and snd: "sound_memo pm (memo st)"
    and fresh: "memo st n = None"
    and vis: "\<forall>v\<in>visited st. (v, n) \<in> (edge_rel pm)\<^sup>+"
  defines "val \<equiv> (if getitem_default pm n = [] then 1
                   else fold max (map (depth_value pm) (getitem_default pm n)) 0 + 1)"
  shows "\<exists>f m'. calculate_depth f pm n st = Some (Inr (val, st\<lparr>memo := m'(n \<mapsto> val)\<rparr>))
           \<and> sound_memo pm m'"
proof -
  have nv: "n \<notin> visited st"
    using vis acyc by (auto simp: acyclic_def)
  show ?thesis
  proof (cases "getitem_default pm n = []")
    case True
    then have "calculate_depth (Suc 0) pm n st = Some (Inr (val, st\<lparr>memo := (memo st)(n \<mapsto> val)\<rparr>))"
      using fresh nv by (simp add: no_parents_iff val_def)
    with snd show ?thesis by blast
  next
    case False
    let ?st = "st\<lparr>visited := insert n (visited st)\<rparr>"
    let ?ps = "getitem_default pm n"
    have edges: "\<forall>p\<in>set ?ps. (n, p) \<in> edge_rel pm"
      by (simp add: edge_rel_def)
    have "\<forall>p\<in>set ?ps. \<forall>v\<in>visited ?st. (v, p) \<in> (edge_rel pm)\<^sup>+"
      using edges vis by (auto intro: trancl_into_trancl)
    with snd have "\<exists>f m'. parents_loop f pm ?ps 0 ?st
            = Some (Inr (fold max (map (depth_value pm) ?ps) 0, ?st\<lparr>memo := m'\<rparr>))
          \<and> sound_memo pm m'"
      by (intro parents_loop_sound IH) auto
    then obtain f m' where l: "parents_loop f pm ?ps 0 ?st
            = Some (Inr (fold max (map (depth_value pm) ?ps) 0, ?st\<lparr>memo := m'\<rparr>))"
      and s': "sound_memo pm m'"
      by blast
    have "calculate_depth (Suc f) pm n st = Some (Inr (val, st\<lparr>memo := m'(n \<mapsto> val)\<rparr>))"
      using fresh nv False l by (simp add: no_parents_iff val_def)
    with s' show ?thesis by blast
  qed
qed

lemma sound_memo_empty: "sound_memo pm Map.empty"
  by (simp add: sound_memo_def)

lemma sound_memo_upd:
  "sound_memo pm m \<Longrightarrow> v = depth_value pm k \<Longrightarrow> sound_memo pm (m(k \<mapsto> v))"
  by (simp add: sound_memo_def)

text \<open>
  On an acyclic index every query against an empty memo table returns a depth, the depths
  obey the recurrence of the loop, and a call on a sound memo table whose recursion path
  leads to the node returns that depth, prints nothing and leaves the table sound.
\<close>

lemma acyclic_resolution:
  assumes acyc: "acyclic (edge_rel pm)"
  shows "depth_of pm n = Some (Inr (depth_value pm n))
       \<and> depth_value pm n = (if getitem_default pm n = [] then 1
            else fold max (map (depth_value pm) (getitem_default pm n)) 0 + 1)
       \<and> (\<forall>st. sound_memo pm (memo st) \<longrightarrow> (\<forall>v\<in>visited st. (v, n) \<in> (edge_rel pm)\<^sup>+) \<longrightarrow>
            (\<exists>f m'. calculate_depth f pm n st = Some (Inr (depth_value pm n, st\<lparr>memo := m'\<rparr>))
               \<and> sound_memo pm m'))"
proof -
  have "wf ((edge_rel pm)\<inverse>)"
    using finite_edge_rel acyc by (rule finite_acyclic_wf_converse)
  then show ?thesis
  proof (induction n rule: wf_induct_rule)
    case (less n)
    let ?val = "if getitem_default pm n = [] then 1
            else fold max (map (depth_value pm) (getitem_default pm n)) 0 + 1"
    have IH: "\<exists>f m'. calculate_depth f pm p st = Some (Inr (depth_value pm p, st\<lparr>memo := m'\<rparr>))
               \<and> sound_memo pm m'"
      if "p \<in> set (getitem_default pm n)" "sound_memo pm (memo st)"
         "\<forall>v\<in>visited st. (v, p) \<in> (edge_rel pm)\<^sup>+" for p st
    proof -
      from that(1) have "(p, n) \<in> (edge_rel pm)\<inverse>"
        by (simp add: edge_rel_def)
      from less.IH[OF this] that(2,3) show ?thesis by blast
    qed
    let ?st0 = "\<lparr>memo = Map.empty, visited = {}, printed = []\<rparr>"
    have "\<exists>f m'. calculate_depth f pm n ?st0 = Some (Inr (?val, ?st0\<lparr>memo := m'(n \<mapsto> ?val)\<rparr>))
           \<and> sound_memo pm m'"
      by (rule calculate_depth_step[OF acyc IH]) (simp_all add: sound_memo_empty)
    then obtain f0 s0 where "calculate_depth f0 pm n ?st0 = Some (Inr (?val, s0))"
      by blast
    then have d: "depth_of pm n = Some (Inr ?val)"
      by (rule depth_of_from_fuel)
    then have v: "depth_value pm n = ?val"
      by (simp add: depth_value_def)
    have "\<exists>f m'. calculate_depth f pm n st = Some (Inr (depth_value pm n, st\<lparr>memo := m'\<rparr>))
               \<and> sound_memo pm m'"
      if s: "sound_memo pm (memo st)" and vis: "\<forall>v\<in>visited st. (v, n) \<in> (edge_rel pm)\<^sup>+" for st
    proof (cases "memo st n")
      case None
      have "\<exists>f m'. calculate_depth f pm n st = Some (Inr (?val, st\<lparr>memo := m'(n \<mapsto> ?val)\<rparr>))
           \<and> sound_memo pm m'"
        by (rule calculate_depth_step[OF acyc IH s None vis])
      then obtain f m' where c: "calculate_depth f pm n st = Some (Inr (?val, st\<lparr>memo := m'(n \<mapsto> ?val)\<rparr>))"
        and s': "sound_memo pm m'"
        by blast
      from s' v have s'': "sound_memo pm (m'(n \<mapsto> ?val))"
        by (intro sound_memo_upd) simp_all
      from c have "calculate_depth f pm n st
          = Some (Inr (depth_value pm n, st\<lparr>memo := m'(n \<mapsto> ?val)\<rparr>))"
        by (simp only: v)
      with s'' show ?thesis by blast
    next
      case (Some d)
      with s have "d = depth_value pm n"
        by (simp add: sound_memo_def)
      with Some have "calculate_depth (Suc 0) pm n st = Some (Inr (depth_value pm n, st\<lparr>memo := memo st\<rparr>))"
        by simp
      with s show ?thesis by blast
    qed
    then have third: "\<forall>st. sound_memo pm (memo st) \<longrightarrow>
            (\<forall>v\<in>visited st. (v, n) \<in> (edge_rel pm)\<^sup>+) \<longrightarrow>
            (\<exists>f m'. calculate_depth f pm n st = Some (Inr (depth_value pm n, st\<lparr>memo := m'\<rparr>))
               \<and> sound_memo pm m')"
      by blast
    from d have first: "depth_of pm n = Some (Inr (depth_value pm n))"
      by (simp only: v)
    from first v third show ?case by (intro conjI)
  qed
qed

text \<open>
  Hence a query of \<open>add_level_column\<close> against a sound memo table returns the same depth as
  one against an empty table and leaves the table sound: along a run the table changes no
  result.
\<close>

lemma depth_query_sound_memo:
  assumes "acyclic (edge_rel pm)" and "sound_memo pm m"
  shows "\<exists>st'. depth_query pm n m = Some (Inr (depth_value pm n, st')) \<and> sound_memo pm (memo st')"
proof -
  let ?st = "\<lparr>memo = m, visited = {}, printed = []\<rparr>"
  have "\<forall>st. sound_memo pm (memo st) \<longrightarrow> (\<forall>v\<in>visited st. (v, n) \<in> (edge_rel pm)\<^sup>+) \<longrightarrow>
            (\<exists>f m'. calculate_depth f pm n st = Some (Inr (depth_value pm n, st\<lparr>memo := m'\<rparr>))
               \<and> sound_memo pm m')"
    using acyclic_resolution[OF assms(1), of n] by (elim conjE)
  then have "sound_memo pm (memo ?st) \<longrightarrow> (\<forall>v\<in>visited ?st. (v, n) \<in> (edge_rel pm)\<^sup>+) \<longrightarrow>
            (\<exists>f m'. calculate_depth f pm n ?st = Some (Inr (depth_value pm n, ?st\<lparr>memo := m'\<rparr>))
               \<and> sound_memo pm m')"
    by (rule spec)
  with assms(2) obtain f m'
    where c: "calculate_depth f pm n ?st
                = Some (Inr (depth_value pm n, \<lparr>memo = m', visited = {}, printed = []\<rparr>))"
      and s: "sound_memo pm m'"
    by auto
  obtain d0 s0 where q: "depth_query pm n m = Some (Inr (d0, s0))"
    using depth_query_returns by blast
  let ?F = "max f (Suc (length pm))"
  have "calculate_depth ?F pm n ?st
          = Some (Inr (depth_value pm n, \<lparr>memo = m', visited = {}, printed = []\<rparr>))"
    using fuel_mono(1)[OF c] by simp
  moreover have "calculate_depth ?F pm n ?st = Some (Inr (d0, s0))"
    using fuel_mono(1)[OF q[unfolded depth_query_def]] by simp
  ultimately have "d0 = depth_value pm n" and "s0 = \<lparr>memo = m', visited = {}, printed = []\<rparr>"
    by simp_all
  with q s show ?thesis by simp
qed

lemma fold_max_ge: "(a::int) \<le> fold max xs a"
  by (induction xs arbitrary: a) (auto intro: order_trans[OF max.cobounded2])

lemma fold_max_Max:
  assumes "xs \<noteq> []" and "\<forall>x\<in>set xs. (a::int) \<le> x"
  shows "fold max xs a = Max (set xs)"
proof -
  have "fold max xs a = Max (set (a # xs))"
    by (simp only: Max.set_eq_fold)
  also have "\<dots> = max a (Max (set xs))"
    using assms(1) by simp
  also have "\<dots> = Max (set xs)"
  proof -
    from assms(1) obtain x where "x \<in> set xs" by (cases xs) auto
    with assms(2) have "a \<le> Max (set xs)"
      by (meson List.finite_set Max_ge order_trans)
    then show ?thesis by simp
  qed
  finally show ?thesis .
qed

lemma depth_value_pos:
  assumes "acyclic (edge_rel pm)"
  shows "1 \<le> depth_value pm n"
proof -
  have "depth_value pm n = (if getitem_default pm n = [] then 1
            else fold max (map (depth_value pm) (getitem_default pm n)) 0 + 1)"
    using acyclic_resolution[OF assms, of n] by blast
  moreover have "0 \<le> fold max (map (depth_value pm) (getitem_default pm n)) 0"
    by (rule fold_max_ge)
  ultimately show ?thesis by (simp split: if_splits)
qed

text \<open>
  C1: on an acyclic edge index the depths returned by queries against an empty memo table
  form a function of the node: a node with no recorded parents has depth 1, and a node with
  recorded parents has depth 1 plus the maximum of the depths of its parents.
\<close>

theorem depth_recurrence:
  assumes "acyclic (edge_rel parent_map)"
  shows "\<exists>depth.
      (\<forall>n. depth_of parent_map n = Some (Inr (depth n)))
    \<and> (\<forall>n. getitem_default parent_map n = [] \<longrightarrow> depth n = 1)
    \<and> (\<forall>n. getitem_default parent_map n \<noteq> [] \<longrightarrow>
           depth n = 1 + Max (depth ` set (getitem_default parent_map n)))"
proof (intro exI[of _ "depth_value parent_map"] conjI allI impI)
  fix n
  show "depth_of parent_map n = Some (Inr (depth_value parent_map n))"
    using acyclic_resolution[OF assms, of n] by blast
next
  fix n assume "getitem_default parent_map n = []"
  then show "depth_value parent_map n = 1"
    using acyclic_resolution[OF assms, of n] by simp
next
  fix n assume ne: "getitem_default parent_map n \<noteq> []"
  let ?ds = "map (depth_value parent_map) (getitem_default parent_map n)"
  have "depth_value parent_map n = fold max ?ds 0 + 1"
    using acyclic_resolution[OF assms, of n] ne by simp
  moreover have "fold max ?ds 0 = Max (set ?ds)"
  proof (rule fold_max_Max)
    show "?ds \<noteq> []" using ne by simp
    show "\<forall>x\<in>set ?ds. 0 \<le> x"
      using depth_value_pos[OF assms] by (auto intro: order_trans[of 0 1])
  qed
  ultimately show "depth_value parent_map n
      = 1 + Max (depth_value parent_map ` set (getitem_default parent_map n))"
    by simp
qed

lemma chain_index: "build_parent_map chain_edges = [(''B'', [''A'']), (''C'', [''B''])]"
  by (simp add: chain_edges_def build_parent_map_def getitem_default_def set_add_def)

lemma acyclic_chain: "acyclic (edge_rel (build_parent_map chain_edges))"
proof (rule acyclicI_order)
  fix a b assume "(a, b) \<in> edge_rel (build_parent_map chain_edges)"
  then show "(\<lambda>s. if s = ''C'' then 2 else if s = ''B'' then 1 else (0::nat)) b
           < (\<lambda>s. if s = ''C'' then 2 else if s = ''B'' then 1 else (0::nat)) a"
    by (auto simp: chain_index edge_rel_def getitem_default_def split: if_splits)
qed

theorem depth_recurrence_witness:
  "acyclic (edge_rel (build_parent_map chain_edges)) \<and> (\<exists>depth.
      (\<forall>n. depth_of (build_parent_map chain_edges) n = Some (Inr (depth n)))
    \<and> (\<forall>n. getitem_default (build_parent_map chain_edges) n = [] \<longrightarrow> depth n = 1)
    \<and> (\<forall>n. getitem_default (build_parent_map chain_edges) n \<noteq> [] \<longrightarrow>
           depth n = 1 + Max (depth ` set (getitem_default (build_parent_map chain_edges) n))))"
  using depth_recurrence[OF acyclic_chain] acyclic_chain by blast

text \<open>
  C10: a call of \<open>calculate_depth\<close> with more fuel than the index has keys returns a depth
  and hands back the recursion-path set exactly as it received it, whatever the node, the
  index, the memo table and the set were.
\<close>

theorem calculate_depth_restores_visited:
  assumes "length parent_map < fuel"
  shows "\<exists>d st'. calculate_depth fuel parent_map skill_id st = Some (Inr (d, st'))
           \<and> visited st' = visited st"
proof -
  have "card (fst ` set parent_map - visited st) \<le> card (fst ` set parent_map)"
    by (intro card_mono) auto
  also have "\<dots> \<le> length parent_map"
    by (metis card_image_le card_length le_trans List.finite_set)
  finally have "card (fst ` set parent_map - visited st) < fuel"
    using assms by simp
  then show ?thesis by (rule calc_returns(1))
qed

theorem calculate_depth_restores_visited_witness:
  "length (build_parent_map cycle_edges) < 3
   \<and> (\<exists>d st'. calculate_depth 3 (build_parent_map cycle_edges) ''X''
                 \<lparr>memo = Map.empty, visited = {''Q''}, printed = []\<rparr> = Some (Inr (d, st'))
        \<and> visited st' = visited \<lparr>memo = Map.empty, visited = {''Q''}, printed = []\<rparr>)"
proof -
  have h: "length (build_parent_map cycle_edges) < 3"
    by (simp add: cycle_edges_def build_parent_map_def getitem_default_def set_add_def)
  from calculate_depth_restores_visited[OF h] h show ?thesis by blast
qed

subsection \<open>Order of enumeration\<close>

lemma fold_max_set: "fold max xs (a::int) = Max (insert a (set xs))"
  using Max.set_eq_fold[of a xs] by simp

lemma same_sets_edge_rel: "same_sets d e \<Longrightarrow> edge_rel d = edge_rel e"
  by (simp add: same_sets_def edge_rel_def)

lemma depth_value_same_sets:
  assumes acyc: "acyclic (edge_rel d)" and same: "same_sets d e"
  shows "depth_value d n = depth_value e n"
proof -
  have acyc': "acyclic (edge_rel e)"
    using acyc same by (simp add: same_sets_edge_rel)
  have "wf ((edge_rel d)\<inverse>)"
    using finite_edge_rel acyc by (rule finite_acyclic_wf_converse)
  then show ?thesis
  proof (induction n rule: wf_induct_rule)
    case (less n)
    let ?pd = "getitem_default d n" and ?pe = "getitem_default e n"
    have sets: "set ?pd = set ?pe"
      using same by (simp add: same_sets_def)
    have vd: "depth_value d n = (if ?pd = [] then 1 else fold max (map (depth_value d) ?pd) 0 + 1)"
      using acyclic_resolution[OF acyc, of n] by blast
    have ve: "depth_value e n = (if ?pe = [] then 1 else fold max (map (depth_value e) ?pe) 0 + 1)"
      using acyclic_resolution[OF acyc', of n] by blast
    have "depth_value d p = depth_value e p" if "p \<in> set ?pd" for p
      using that by (intro less) (simp add: edge_rel_def)
    then have "depth_value d ` set ?pd = depth_value e ` set ?pe"
      using sets by auto
    then have "fold max (map (depth_value d) ?pd) 0 = fold max (map (depth_value e) ?pe) 0"
      by (simp add: fold_max_set)
    moreover have "?pd = [] \<longleftrightarrow> ?pe = []"
      using sets by (metis set_empty)
    ultimately show ?case
      unfolding vd ve by simp
  qed
qed

lemma edge_rel_build_parent_map: "edge_rel (build_parent_map rows) = set rows"
  by (auto simp: edge_rel_def build_parent_map_parents)

lemma depth_value_rec:
  assumes "acyclic (edge_rel d)"
  shows "depth_value d n = (if set (getitem_default d n) = {} then 1
           else Max (insert 0 (depth_value d ` set (getitem_default d n))) + 1)"
  using acyclic_resolution[OF assms, of n] by (simp add: fold_max_set)

lemma depth_of_value:
  assumes "acyclic (edge_rel d)"
  shows "depth_of d n = Some (Inr (depth_value d n))"
  using acyclic_resolution[OF assms, of n] by blast

lemma acyclic_diamond:
  assumes "set rows = set diamond_edges"
  shows "acyclic (edge_rel (build_parent_map rows))"
proof (rule acyclicI_order)
  fix a b assume "(a, b) \<in> edge_rel (build_parent_map rows)"
  with assms have "(a, b) \<in> set diamond_edges"
    by (simp add: edge_rel_build_parent_map)
  then show "(\<lambda>s. if s = ''D'' then 2 else if s = ''A'' then 0 else (1::nat)) b
           < (\<lambda>s. if s = ''D'' then 2 else if s = ''A'' then 0 else (1::nat)) a"
    by (auto simp: diamond_edges_def)
qed

text \<open>
  C8: on an acyclic edge index the depth a query returns does not depend on the
  order in which the parents of any node are enumerated: two indexes that record the same
  parent sets give every node the same depth.
\<close>

theorem depth_order_independent:
  assumes "acyclic (edge_rel d)" and "same_sets d e"
  shows "depth_of d n = depth_of e n"
proof -
  have "acyclic (edge_rel e)"
    using assms by (simp add: same_sets_edge_rel)
  then have "depth_of e n = Some (Inr (depth_value e n))"
    using acyclic_resolution by blast
  moreover have "depth_of d n = Some (Inr (depth_value d n))"
    using acyclic_resolution[OF assms(1)] by blast
  ultimately show ?thesis
    using depth_value_same_sets[OF assms] by simp
qed

theorem depth_order_independent_witness:
  "acyclic (edge_rel (build_parent_map diamond_edges))
   \<and> same_sets (build_parent_map diamond_edges) (build_parent_map (rev diamond_edges))
   \<and> getitem_default (build_parent_map diamond_edges) ''D'' = [''B'', ''C'']
   \<and> getitem_default (build_parent_map (rev diamond_edges)) ''D'' = [''C'', ''B'']
   \<and> depth_of (build_parent_map diamond_edges) ''D''
       = depth_of (build_parent_map (rev diamond_edges)) ''D''"
proof -
  have a: "acyclic (edge_rel (build_parent_map diamond_edges))"
    by (rule acyclic_diamond) simp
  have s: "same_sets (build_parent_map diamond_edges) (build_parent_map (rev diamond_edges))"
    by (rule build_parent_map_set_of_rows) simp
  have "getitem_default (build_parent_map diamond_edges) ''D'' = [''B'', ''C'']"
    and "getitem_default (build_parent_map (rev diamond_edges)) ''D'' = [''C'', ''B'']"
    by (simp_all add: diamond_edges_def build_parent_map_def getitem_default_def set_add_def)
  with depth_order_independent[OF a s, of "''D''"] a s show ?thesis
    by blast
qed

text \<open>
  With a cycle in the index the order matters: the two orders of the parents of \<open>W\<close>
  give \<open>W\<close> the depths 5 and 4.
\<close>

theorem depth_order_counterexample:
  "same_sets order_a order_b
   \<and> depth_of order_a ''W'' = Some (Inr 5) \<and> depth_of order_b ''W'' = Some (Inr 4)"
proof -
  have "same_sets order_a order_b"
    by (auto simp: same_sets_def order_a_def order_b_def getitem_default_def)
  moreover have "depth_of order_a ''W'' = Some (Inr 5)"
    by (simp add: depth_of_def depth_query_def order_a_def no_parents_def getitem_default_def)
  moreover have "depth_of order_b ''W'' = Some (Inr 4)"
    by (simp add: depth_of_def depth_query_def order_b_def no_parents_def getitem_default_def)
  ultimately show ?thesis by simp
qed

section \<open>Properties of the path enumerator\<close>

declare get_all_paths.simps [simp del]

lemma extend_all_paths_concat:
  "extend_all_paths ps c2p cp V acc
     = acc @ concat (map (\<lambda>p. fst (get_all_paths p c2p (Some (cp @ [p])) (Some V))) ps)"
  by (induction ps arbitrary: acc) simp_all

lemma get_all_paths_leaf:
  "n \<in> or_default V {} \<or> no_parents c2p n \<Longrightarrow>
     fst (get_all_paths n c2p cp V) = [or_default cp [n]]"
  by (auto simp: get_all_paths.simps)

lemma get_all_paths_branch:
  "n \<notin> or_default V {} \<Longrightarrow> \<not> no_parents c2p n \<Longrightarrow>
     fst (get_all_paths n c2p cp V)
       = concat (map (\<lambda>p. fst (get_all_paths p c2p (Some (or_default cp [n] @ [p]))
                                 (Some (insert n (or_default V {})))))
                   (getitem_default c2p n))"
  by (simp add: get_all_paths.simps extend_all_paths_concat)

lemma get_all_paths_induct [case_names leaf branch]:
  assumes leaf: "\<And>n cp V. n \<in> or_default V {} \<or> no_parents c2p n \<Longrightarrow> P n cp V"
    and branch: "\<And>n cp V. n \<notin> or_default V {} \<Longrightarrow> \<not> no_parents c2p n \<Longrightarrow>
        (\<And>p. p \<in> set (getitem_default c2p n) \<Longrightarrow>
           P p (Some (or_default cp [n] @ [p])) (Some (insert n (or_default V {})))) \<Longrightarrow>
        P n cp V"
  shows "P n cp V"
proof (induction "card (fst ` set c2p - or_default V {})" arbitrary: n cp V rule: less_induct)
  case less
  show ?case
  proof (cases "n \<in> or_default V {} \<or> no_parents c2p n")
    case True
    then show ?thesis by (rule leaf)
  next
    case False
    then have "n \<in> fst ` set c2p"
      by (auto simp: no_parents_def map_of_eq_None_iff)
    with False have "card (fst ` set c2p - insert n (or_default V {}))
        < card (fst ` set c2p - or_default V {})"
      by (intro card_unvisited_less) auto
    then have c: "card (fst ` set c2p - or_default (Some (insert n (or_default V {}))) {})
        < card (fst ` set c2p - or_default V {})"
      by (simp add: or_default_def)
    have "P p (Some (or_default cp [n] @ [p])) (Some (insert n (or_default V {})))" for p
      using c by (rule less)
    with False show ?thesis by (rule_tac branch) auto
  qed
qed

lemma get_all_paths_prefix:
  "fst (get_all_paths n c2p cp V) \<noteq> []
   \<and> (\<forall>p\<in>set (fst (get_all_paths n c2p cp V)). \<exists>suffix. p = or_default cp [n] @ suffix)"
proof (induction n cp V rule: get_all_paths_induct[where c2p = c2p])
  case (leaf n cp V)
  then show ?case by (simp add: get_all_paths_leaf)
next
  case (branch n cp V)
  let ?sub = "\<lambda>p. fst (get_all_paths p c2p (Some (or_default cp [n] @ [p]))
                                 (Some (insert n (or_default V {}))))"
  have b: "fst (get_all_paths n c2p cp V) = concat (map ?sub (getitem_default c2p n))"
    using branch(1,2) by (rule get_all_paths_branch)
  from branch(2) obtain p0 where p0: "p0 \<in> set (getitem_default c2p n)"
    by (cases "getitem_default c2p n") (auto simp: no_parents_def)
  from branch(3)[OF p0] p0 have "concat (map ?sub (getitem_default c2p n)) \<noteq> []"
    by auto
  moreover have "\<exists>suffix. q = or_default cp [n] @ suffix"
    if "q \<in> set (concat (map ?sub (getitem_default c2p n)))" for q
  proof -
    from that obtain p where p: "p \<in> set (getitem_default c2p n)" and q: "q \<in> set (?sub p)"
      by auto
    from branch(3)[OF p] q obtain suffix where "q = (or_default cp [n] @ [p]) @ suffix"
      by (auto simp: or_default_def)
    then show ?thesis by simp
  qed
  ultimately show ?case unfolding b by blast
qed

text \<open>
  C5: for every node identifier, recorded in the index or not, \<open>paths\<close> returns at least
  one path, and every path it returns is non-empty and starts with the queried node.
\<close>

theorem paths_nonempty_start:
  "paths child_to_parents skill_id \<noteq> []
   \<and> (\<forall>path\<in>set (paths child_to_parents skill_id). path \<noteq> [] \<and> hd path = skill_id)"
  using get_all_paths_prefix[of skill_id child_to_parents None None]
  by (auto simp: paths_def or_default_def)

theorem paths_nonempty_start_witness:
  "[''D'', ''B'', ''A''] \<in> set (paths (load_hierarchy diamond_edges) ''D'')
   \<and> paths (load_hierarchy diamond_edges) ''D'' \<noteq> []
   \<and> [''D'', ''B'', ''A''] \<noteq> [] \<and> hd [''D'', ''B'', ''A''] = ''D''"
proof -
  have "paths (load_hierarchy diamond_edges) ''D'' = [[''D'', ''B'', ''A''], [''D'', ''C'', ''A'']]"
    by (simp add: paths_def diamond_edges_def load_hierarchy_def getitem_default_def
          or_default_def no_parents_def get_all_paths.simps)
  then have "[''D'', ''B'', ''A''] \<in> set (paths (load_hierarchy diamond_edges) ''D'')"
    by simp
  with paths_nonempty_start[of "load_hierarchy diamond_edges" "''D''"] show ?thesis
    by blast
qed

lemma get_all_paths_ends:
  assumes "or_default cp [n] \<noteq> []" "last (or_default cp [n]) = n"
    "or_default V {} \<subseteq> set (butlast (or_default cp [n]))"
  shows "\<forall>p\<in>set (fst (get_all_paths n c2p cp V)).
           p \<noteq> [] \<and> (no_parents c2p (last p) \<or> last p \<in> set (butlast p))"
  using assms
proof (induction n cp V rule: get_all_paths_induct[where c2p = c2p])
  case (leaf n cp V)
  then show ?case by (auto simp: get_all_paths_leaf)
next
  case (branch n cp V)
  let ?sub = "\<lambda>p. fst (get_all_paths p c2p (Some (or_default cp [n] @ [p]))
                                 (Some (insert n (or_default V {}))))"
  have b: "fst (get_all_paths n c2p cp V) = concat (map ?sub (getitem_default c2p n))"
    using branch(1,2) by (rule get_all_paths_branch)
  have n_in: "n \<in> set (or_default cp [n])"
    using branch.prems(1,2) last_in_set by fastforce
  have "q \<noteq> [] \<and> (no_parents c2p (last q) \<or> last q \<in> set (butlast q))"
    if "p \<in> set (getitem_default c2p n)" "q \<in> set (?sub p)" for p q
  proof -
    have "insert n (or_default V {}) \<subseteq> set (or_default cp [n])"
      using branch.prems(3) n_in by (auto dest: in_set_butlastD)
    then have "\<forall>q\<in>set (?sub p). q \<noteq> [] \<and> (no_parents c2p (last q) \<or> last q \<in> set (butlast q))"
      by (intro branch.IH[OF that(1)]) (simp_all add: or_default_def)
    with that(2) show ?thesis by blast
  qed
  then show ?case unfolding b by auto
qed

text \<open>
  C6: every path returned by \<open>paths\<close> ends at a node with no recorded parents or at a node
  that already occurs earlier in the same path.
\<close>

theorem paths_end_at_root_or_repeat:
  "\<forall>path\<in>set (paths child_to_parents skill_id).
     no_parents child_to_parents (last path) \<or> last path \<in> set (butlast path)"
  using get_all_paths_ends[of None skill_id None child_to_parents]
  by (simp add: paths_def or_default_def)

theorem paths_end_at_root_or_repeat_witness:
  "[''X'', ''Y'', ''X''] \<in> set (paths (load_hierarchy cycle_edges) ''X'')
   \<and> (no_parents (load_hierarchy cycle_edges) (last [''X'', ''Y'', ''X''])
        \<or> last [''X'', ''Y'', ''X''] \<in> set (butlast [''X'', ''Y'', ''X'']))"
proof -
  have "paths (load_hierarchy cycle_edges) ''X'' = [[''X'', ''Y'', ''X'']]"
    by (simp add: paths_def cycle_edges_def load_hierarchy_def getitem_default_def
          or_default_def no_parents_def get_all_paths.simps)
  then have "[''X'', ''Y'', ''X''] \<in> set (paths (load_hierarchy cycle_edges) ''X'')"
    by simp
  with paths_end_at_root_or_repeat[of "load_hierarchy cycle_edges" "''X''"] show ?thesis
    by blast
qed

text \<open>A chain without a repeated node that climbs to a root is among the paths of its first node.\<close>

lemma chain_enumerated:
  assumes "ys \<noteq> []" "hd ys = n" "upward_chain c2p ys" "distinct ys"
    "set ys \<inter> or_default V {} = {}" "no_parents c2p (last ys)"
  shows "or_default cp [n] @ tl ys \<in> set (fst (get_all_paths n c2p cp V))"
  using assms
proof (induction ys arbitrary: n cp V)
  case Nil
  then show ?case by simp
next
  case (Cons y ys)
  then have y: "y = n" by simp
  show ?case
  proof (cases ys)
    case Nil
    with Cons.prems y show ?thesis by (simp add: get_all_paths_leaf)
  next
    case (Cons p rest)
    with Cons.prems y have p: "p \<in> set (getitem_default c2p n)" and nv: "n \<notin> or_default V {}"
      by auto
    from p have np: "\<not> no_parents c2p n"
      by (auto simp: no_parents_iff)
    have "or_default (Some (or_default cp [n] @ [p])) [p] @ tl ys
        \<in> set (fst (get_all_paths p c2p (Some (or_default cp [n] @ [p]))
                                 (Some (insert n (or_default V {})))))"
      using Cons.prems Cons y by (intro Cons.IH) (auto simp: or_default_def)
    then have "or_default cp [n] @ tl (y # ys)
        \<in> set (fst (get_all_paths p c2p (Some (or_default cp [n] @ [p]))
                                 (Some (insert n (or_default V {})))))"
      using Cons by (simp add: or_default_def)
    with p show ?thesis
      unfolding get_all_paths_branch[OF nv np] by auto
  qed
qed

text \<open>
  C7: a node that is not yet on the branch and has parents yields the concatenation, in the
  order of its parents, of the enumerations of the parents, each started from the same set
  (the set of the node's own branch with the node added), so no branch sees what a sibling
  visited.  Hence every chain that climbs to a root without repeating a node is returned,
  whatever cycles the other branches run into.
\<close>

theorem sibling_branches_independent:
  "(skill_id \<notin> or_default visited_arg {} \<and> \<not> no_parents child_to_parents skill_id \<longrightarrow>
      fst (get_all_paths skill_id child_to_parents current_path visited_arg)
        = concat (map (\<lambda>parent_id. fst (get_all_paths parent_id child_to_parents
                          (Some (or_default current_path [skill_id] @ [parent_id]))
                          (Some (insert skill_id (or_default visited_arg {})))))
                    (getitem_default child_to_parents skill_id)))
   \<and> (chain \<noteq> [] \<and> upward_chain child_to_parents chain \<and> distinct chain
        \<and> no_parents child_to_parents (last chain) \<longrightarrow>
      chain \<in> set (paths child_to_parents (hd chain)))"
proof (intro conjI impI)
  assume "skill_id \<notin> or_default visited_arg {} \<and> \<not> no_parents child_to_parents skill_id"
  then show "fst (get_all_paths skill_id child_to_parents current_path visited_arg)
        = concat (map (\<lambda>parent_id. fst (get_all_paths parent_id child_to_parents
                          (Some (or_default current_path [skill_id] @ [parent_id]))
                          (Some (insert skill_id (or_default visited_arg {})))))
                    (getitem_default child_to_parents skill_id))"
    by (simp add: get_all_paths_branch)
next
  assume a: "chain \<noteq> [] \<and> upward_chain child_to_parents chain \<and> distinct chain
        \<and> no_parents child_to_parents (last chain)"
  then have "or_default None [hd chain] @ tl chain
      \<in> set (fst (get_all_paths (hd chain) child_to_parents None None))"
    by (intro chain_enumerated) (simp_all add: or_default_def)
  with a show "chain \<in> set (paths child_to_parents (hd chain))"
    by (simp add: paths_def or_default_def)
qed

theorem sibling_branches_independent_witness:
  "(''N'' \<notin> or_default None {} \<and> \<not> no_parents (load_hierarchy side_cycle_edges) ''N'')
   \<and> ([''N'', ''Q''] \<noteq> [] \<and> upward_chain (load_hierarchy side_cycle_edges) [''N'', ''Q'']
        \<and> distinct [''N'', ''Q'']
        \<and> no_parents (load_hierarchy side_cycle_edges) (last [''N'', ''Q'']))
   \<and> fst (get_all_paths ''N'' (load_hierarchy side_cycle_edges) None None)
        = concat (map (\<lambda>parent_id. fst (get_all_paths parent_id (load_hierarchy side_cycle_edges)
                          (Some (or_default None [''N''] @ [parent_id]))
                          (Some (insert ''N'' (or_default None {})))))
                    (getitem_default (load_hierarchy side_cycle_edges) ''N''))
   \<and> [''N'', ''Q''] \<in> set (paths (load_hierarchy side_cycle_edges) (hd [''N'', ''Q'']))
   \<and> paths (load_hierarchy side_cycle_edges) ''N'' = [[''N'', ''P'', ''N''], [''N'', ''Q'']]"
proof -
  have idx: "load_hierarchy side_cycle_edges = [(''N'', [''P'', ''Q'']), (''P'', [''N''])]"
    by (simp add: side_cycle_edges_def load_hierarchy_def getitem_default_def)
  have h1: "''N'' \<notin> or_default None {} \<and> \<not> no_parents (load_hierarchy side_cycle_edges) ''N''"
    by (simp add: idx or_default_def no_parents_def getitem_default_def)
  have h2: "[''N'', ''Q''] \<noteq> [] \<and> upward_chain (load_hierarchy side_cycle_edges) [''N'', ''Q'']
        \<and> distinct [''N'', ''Q'']
        \<and> no_parents (load_hierarchy side_cycle_edges) (last [''N'', ''Q''])"
    by (simp add: idx no_parents_def getitem_default_def)
  have ev: "paths (load_hierarchy side_cycle_edges) ''N'' = [[''N'', ''P'', ''N''], [''N'', ''Q'']]"
    by (simp add: idx paths_def getitem_default_def or_default_def no_parents_def
          get_all_paths.simps)
  from sibling_branches_independent[of "''N''" None "load_hierarchy side_cycle_edges" None
      "[''N'', ''Q'']"] h1 h2 ev
  show ?thesis by blast
qed

section \<open>The diamond\<close>

lemma distinct_pair:
  assumes "distinct xs" "set xs = {a, b}" "a \<noteq> b"
  shows "xs = [a, b] \<or> xs = [b, a]"
proof -
  have "length xs = 2"
    using assms by (metis card_2_iff distinct_card)
  then obtain x y where "xs = [x, y]"
    by (auto simp: length_Suc_conv numeral_2_eq_2)
  with assms show ?thesis by (auto simp: doubleton_eq_iff)
qed

lemma distinct_single:
  assumes "distinct xs" "set xs = {a}"
  shows "xs = [a]"
proof (cases xs)
  case Nil
  with assms show ?thesis by simp
next
  case (Cons x rest)
  with assms have xa: "x = a" and sub: "set rest \<subseteq> {a}" and notin: "a \<notin> set rest"
    by auto
  from sub notin have "rest = []" by (cases rest) auto
  with Cons xa show ?thesis by simp
qed

text \<open>
  C4: for every edge stream that lists the four edges of the diamond, in any order, the
  depths of \<open>A\<close>, \<open>B\<close>, \<open>C\<close> and \<open>D\<close> are 1, 2, 2 and 3; when no edge is listed twice,
  \<open>paths\<close> returns for \<open>D\<close> the two paths \<open>[D, B, A]\<close> and \<open>[D, C, A]\<close>, once each and
  nothing else, in the order in which the stream lists the parents of \<open>D\<close>.
\<close>

theorem diamond_scenario:
  assumes "set rows = set diamond_edges"
  shows "depth_of (build_parent_map rows) ''A'' = Some (Inr 1)
       \<and> depth_of (build_parent_map rows) ''B'' = Some (Inr 2)
       \<and> depth_of (build_parent_map rows) ''C'' = Some (Inr 2)
       \<and> depth_of (build_parent_map rows) ''D'' = Some (Inr 3)
       \<and> (distinct rows \<longrightarrow>
            paths (load_hierarchy rows) ''D'' = [[''D'', ''B'', ''A''], [''D'', ''C'', ''A'']]
          \<or> paths (load_hierarchy rows) ''D'' = [[''D'', ''C'', ''A''], [''D'', ''B'', ''A'']])"
proof -
  let ?d = "build_parent_map rows"
  have acyc: "acyclic (edge_rel ?d)"
    using assms by (rule acyclic_diamond)
  have pA: "set (getitem_default ?d ''A'') = {}"
    and pB: "set (getitem_default ?d ''B'') = {''A''}"
    and pC: "set (getitem_default ?d ''C'') = {''A''}"
    and pD: "set (getitem_default ?d ''D'') = {''B'', ''C''}"
    using assms by (auto simp: build_parent_map_parents diamond_edges_def)
  have vA: "depth_value ?d ''A'' = 1"
    by (simp add: depth_value_rec[OF acyc, of "''A''"] pA)
  have vB: "depth_value ?d ''B'' = 2"
    by (simp add: depth_value_rec[OF acyc, of "''B''"] pB vA)
  have vC: "depth_value ?d ''C'' = 2"
    by (simp add: depth_value_rec[OF acyc, of "''C''"] pC vA)
  have vD: "depth_value ?d ''D'' = 3"
    by (simp add: depth_value_rec[OF acyc, of "''D''"] pD vB vC)
  have depths: "depth_of ?d ''A'' = Some (Inr 1) \<and> depth_of ?d ''B'' = Some (Inr 2)
       \<and> depth_of ?d ''C'' = Some (Inr 2) \<and> depth_of ?d ''D'' = Some (Inr 3)"
    by (simp add: depth_of_value[OF acyc] vA vB vC vD)
  have "paths (load_hierarchy rows) ''D'' = [[''D'', ''B'', ''A''], [''D'', ''C'', ''A'']]
          \<or> paths (load_hierarchy rows) ''D'' = [[''D'', ''C'', ''A''], [''D'', ''B'', ''A'']]"
    if dist: "distinct rows"
  proof -
    let ?c = "load_hierarchy rows"
    have gA: "getitem_default ?c ''A'' = []"
      using assms by (auto simp: load_hierarchy_parents diamond_edges_def filter_empty_conv)
    have "set (getitem_default ?c ''B'') = {''A''}" "set (getitem_default ?c ''C'') = {''A''}"
      using assms by (auto simp: load_hierarchy_set diamond_edges_def)
    then have gB: "getitem_default ?c ''B'' = [''A'']" and gC: "getitem_default ?c ''C'' = [''A'']"
      using load_hierarchy_distinct[OF dist] by (auto intro: distinct_single)
    have "set (getitem_default ?c ''D'') = {''B'', ''C''}"
      using assms by (auto simp: load_hierarchy_set diamond_edges_def)
    then have "getitem_default ?c ''D'' = [''B'', ''C''] \<or> getitem_default ?c ''D'' = [''C'', ''B'']"
      using load_hierarchy_distinct[OF dist] by (intro distinct_pair) auto
    then show ?thesis
    proof
      assume gD: "getitem_default ?c ''D'' = [''B'', ''C'']"
      have "paths ?c ''D'' = [[''D'', ''B'', ''A''], [''D'', ''C'', ''A'']]"
        by (simp add: paths_def get_all_paths.simps no_parents_iff gA gB gC gD or_default_def)
      then show ?thesis by simp
    next
      assume gD: "getitem_default ?c ''D'' = [''C'', ''B'']"
      have "paths ?c ''D'' = [[''D'', ''C'', ''A''], [''D'', ''B'', ''A'']]"
        by (simp add: paths_def get_all_paths.simps no_parents_iff gA gB gC gD or_default_def)
      then show ?thesis by simp
    qed
  qed
  with depths show ?thesis by blast
qed

theorem diamond_scenario_witness:
  "set diamond_edges = set diamond_edges \<and> distinct diamond_edges
   \<and> depth_of (build_parent_map diamond_edges) ''A'' = Some (Inr 1)
   \<and> depth_of (build_parent_map diamond_edges) ''B'' = Some (Inr 2)
   \<and> depth_of (build_parent_map diamond_edges) ''C'' = Some (Inr 2)
   \<and> depth_of (build_parent_map diamond_edges) ''D'' = Some (Inr 3)
   \<and> paths (load_hierarchy diamond_edges) ''D'' = [[''D'', ''B'', ''A''], [''D'', ''C'', ''A'']]"
proof -
  have d: "distinct diamond_edges"
    by (simp add: diamond_edges_def)
  have p: "paths (load_hierarchy diamond_edges) ''D'' = [[''D'', ''B'', ''A''], [''D'', ''C'', ''A'']]"
    by (simp add: paths_def diamond_edges_def load_hierarchy_def getitem_default_def
          or_default_def no_parents_def get_all_paths.simps)
  from diamond_scenario[OF refl[of "set diamond_edges"]] d p show ?thesis
    by blast
qed

section \<open>Duplicate edges\<close>

text \<open>
  C3: a row read twice leaves the index of \<open>build_parent_map\<close> as it was, but
  \<open>load_hierarchy\<close> appends the parent a second time, and \<open>paths\<close> then returns the path
  through that parent twice.
\<close>

theorem duplicate_edge_paths:
  "build_parent_map [(''D'', ''B''), (''D'', ''B'')] = build_parent_map [(''D'', ''B'')]
   \<and> load_hierarchy [(''D'', ''B''), (''D'', ''B'')] = [(''D'', [''B'', ''B''])]
   \<and> load_hierarchy [(''D'', ''B'')] = [(''D'', [''B''])]
   \<and> paths (load_hierarchy [(''D'', ''B''), (''D'', ''B'')]) ''D'' = [[''D'', ''B''], [''D'', ''B'']]
   \<and> paths (load_hierarchy [(''D'', ''B'')]) ''D'' = [[''D'', ''B'']]"
  by (simp add: paths_def load_hierarchy_def build_parent_map_def getitem_default_def
        set_add_def or_default_def no_parents_def get_all_paths.simps)

section \<open>Properties of the labels\<close>

text \<open>
  C9: the label of a node is the recorded label when there is one and the identifier itself
  otherwise; the path string is empty for the empty path, the label for a single node, and
  otherwise the label of the first node, the separator \<open>" ; "\<close> and the string of the rest.
  With the label \<open>Root Skill\<close> for \<open>A\<close> and none for \<open>B\<close>, the path \<open>[B, A]\<close> gives
  \<open>B ; Root Skill\<close>.
\<close>

theorem label_fallback_and_format:
  "dict_get labels node_id node_id = (case labels node_id of Some l \<Rightarrow> l | None \<Rightarrow> node_id)
   \<and> hierarchy_path labels [] = ''''
   \<and> hierarchy_path labels [a] = dict_get labels a a
   \<and> hierarchy_path labels (a # b # path)
        = dict_get labels a a @ '' ; '' @ hierarchy_path labels (b # path)
   \<and> hierarchy_path [''A'' \<mapsto> ''Root Skill''] [''B'', ''A''] = ''B ; Root Skill''"
  by (simp add: dict_get_def hierarchy_path_def path_labels_def split: option.splits)

end
